theory Spec2Isabelle
  imports Complex_Main "HOL-Library.Sublist"
begin

section \<open>Python values, exceptions and the tracing boundary\<close>

text \<open>
  The instrumented function of \<^verbatim>\<open>opentelemetry/instrumentation/openai/__init__.py\<close>
  receives keyword arguments and a response that are plain Python data. Floats are never
  computed with, only stored (the defaults \<^verbatim>\<open>1.0\<close>, \<^verbatim>\<open>0.0\<close> and \<^verbatim>\<open>math.inf\<close>), so a
  float is a rational or one of the three special values. A dict is an association list in
  insertion order; a lookup takes the first binding of a key.
\<close>

datatype pyfloat = FloatVal rat | FloatInf | FloatNegInf | FloatNaN

datatype pyval =
    PNone
  | PBool bool
  | PInt int
  | PFloat pyfloat
  | PStr string
  | PList "pyval list"
  | PDict "(string \<times> pyval) list"

type_synonym py_dict = "(string \<times> pyval) list"

text \<open>
  \<^verbatim>\<open>KeyError\<close> carries the missing key. \<^verbatim>\<open>TypeError\<close> is what subscripting or
  iterating a value of the wrong type raises. \<^verbatim>\<open>OtherError\<close> (class name and payload) stands
  for whatever else the wrapped client library raises.
\<close>

datatype exn = KeyError string | TypeError | OtherError string pyval

text \<open>
  What the wrapper does to the outside world, in the order it does it: it opens a span,
  writes attributes to it, invokes the wrapped callable, and the \<^verbatim>\<open>with\<close> block closes
  the span. The span is observed at this boundary; what the tracing SDK does with the
  writes is outside the program.
\<close>

datatype event =
    SpanStart string
  | SetAttribute string pyval
  | Call "pyval list" py_dict
  | SpanEnd

text \<open>A callable returns or raises, and leaves the events it caused.\<close>

type_synonym callable = "pyval list \<Rightarrow> py_dict \<Rightarrow> (exn + pyval) \<times> event list"

text \<open>
  The client method itself (or a test double of it): \<open>f\<close> gives what it returns or raises
  for given arguments, and each invocation is recorded.
\<close>

definition underlying :: "(pyval list \<Rightarrow> py_dict \<Rightarrow> exn + pyval) \<Rightarrow> callable" where
  "underlying f args kwargs = (f args kwargs, [Call args kwargs])"

subsection \<open>Python primitives used by the wrapper\<close>

text \<open>Truthiness, as \<^verbatim>\<open>if value:\<close> tests it.\<close>

fun truthy :: "pyval \<Rightarrow> bool" where
  "truthy PNone = False"
| "truthy (PBool b) = b"
| "truthy (PInt i) = (i \<noteq> 0)"
| "truthy (PFloat x) = (x \<noteq> FloatVal 0)"
| "truthy (PStr s) = (s \<noteq> [])"
| "truthy (PList xs) = (xs \<noteq> [])"
| "truthy (PDict d) = (d \<noteq> [])"

text \<open>\<^verbatim>\<open>key in kwargs\<close> and \<^verbatim>\<open>kwargs[key]\<close> on a dict.\<close>

definition contains :: "py_dict \<Rightarrow> string \<Rightarrow> bool" where
  "contains d k = (map_of d k \<noteq> None)"

definition dict_getitem :: "py_dict \<Rightarrow> string \<Rightarrow> exn + pyval" where
  "dict_getitem d k = (case map_of d k of None \<Rightarrow> Inl (KeyError k) | Some v \<Rightarrow> Inr v)"

text \<open>
  \<^verbatim>\<open>value[key]\<close> with a string key: only a dict can be subscripted with a string; a list
  or a string wants an integer, and the scalars are not subscriptable at all.
\<close>

fun getitem :: "pyval \<Rightarrow> string \<Rightarrow> exn + pyval" where
  "getitem (PDict d) k = dict_getitem d k"
| "getitem v k = Inl TypeError"

text \<open>
  \<^verbatim>\<open>for x in value\<close>: a list gives its elements, a string its characters, a dict its
  keys; nothing else here is iterable.
\<close>

fun iterate :: "pyval \<Rightarrow> exn + pyval list" where
  "iterate (PList xs) = Inr xs"
| "iterate (PStr s) = Inr (map (\<lambda>c. PStr [c]) s)"
| "iterate (PDict d) = Inr (map (\<lambda>kv. PStr (fst kv)) d)"
| "iterate v = Inl TypeError"

text \<open>
  A replacement field \<^verbatim>\<open>{value}\<close> of an f-string: a string is inserted as it is, any
  other value through Python's built-in \<^verbatim>\<open>str\<close>, which is not part of this program and
  is the parameter \<open>str_of\<close>.
\<close>

fun format_value :: "(pyval \<Rightarrow> string) \<Rightarrow> pyval \<Rightarrow> string" where
  "format_value str_of (PStr s) = s"
| "format_value str_of v = str_of v"

text \<open>The decimal numeral of a loop index, as \<^verbatim>\<open>{index}\<close> prints it.\<close>

definition digit_char :: "nat \<Rightarrow> char" where
  "digit_char d = char_of (48 + d)"

fun format_index :: "nat \<Rightarrow> string" where
  "format_index n =
     (if n < 10 then [digit_char n] else format_index (n div 10) @ [digit_char (n mod 10)])"

declare format_index.simps [simp del]

subsection \<open>Statements of the span body\<close>

text \<open>
  Every statement of the \<^verbatim>\<open>with\<close> block but the call is
  \<^verbatim>\<open>span.set_attribute(key, expression)\<close>. Its outcome is the exception the expression
  raised or the attribute write. The statements run in order and the first exception ends
  the block.
\<close>

type_synonym stmt = "exn + event"

definition set_attribute :: "string \<Rightarrow> exn + pyval \<Rightarrow> stmt" where
  "set_attribute key r = (case r of Inl e \<Rightarrow> Inl e | Inr v \<Rightarrow> Inr (SetAttribute key v))"

fun run_statements :: "stmt list \<Rightarrow> exn option \<times> event list" where
  "run_statements [] = (None, [])"
| "run_statements (Inl e # ss) = (Some e, [])"
| "run_statements (Inr ev # ss) = (case run_statements ss of (r, evs) \<Rightarrow> (r, ev # evs))"

section \<open>The instrumented call\<close>

definition name :: string where
  "name = ''openai.chat''"

text \<open>
  Lines 75 to 78: \<^verbatim>\<open>kwargs["messages"]\<close>, then the loop that appends one line per message
  to \<^verbatim>\<open>messages_str\<close>.
\<close>

fun messages_loop :: "(pyval \<Rightarrow> string) \<Rightarrow> pyval list \<Rightarrow> string \<Rightarrow> exn + string" where
  "messages_loop str_of [] messages_str = Inr messages_str"
| "messages_loop str_of (message # rest) messages_str =
     (case getitem message ''role'' of
        Inl e \<Rightarrow> Inl e
      | Inr role \<Rightarrow>
          (case getitem message ''content'' of
             Inl e \<Rightarrow> Inl e
           | Inr content \<Rightarrow>
               messages_loop str_of rest
                 (messages_str @ format_value str_of role @ '': '' @
                  format_value str_of content @ ''\<newline>'')))"

definition messages_str :: "(pyval \<Rightarrow> string) \<Rightarrow> py_dict \<Rightarrow> exn + pyval" where
  "messages_str str_of kwargs =
     (case dict_getitem kwargs ''messages'' of
        Inl e \<Rightarrow> Inl e
      | Inr messages \<Rightarrow>
          (case iterate messages of
             Inl e \<Rightarrow> Inl e
           | Inr ms \<Rightarrow>
               (case messages_loop str_of ms [] of
                  Inl e \<Rightarrow> Inl e
                | Inr s \<Rightarrow> Inr (PStr s))))"

text \<open>\<^verbatim>\<open>kwargs[key] if key in kwargs else default\<close>.\<close>

definition get_or :: "py_dict \<Rightarrow> string \<Rightarrow> pyval \<Rightarrow> exn + pyval" where
  "get_or kwargs key dflt = (if contains kwargs key then dict_getitem kwargs key else Inr dflt)"

text \<open>Lines 60 to 80, before the call.\<close>

definition request_statements :: "(pyval \<Rightarrow> string) \<Rightarrow> py_dict \<Rightarrow> stmt list" where
  "request_statements str_of kwargs =
     [set_attribute (name @ ''.model'') (dict_getitem kwargs ''model''),
      set_attribute (name @ ''.temperature'') (get_or kwargs ''temperature'' (PFloat (FloatVal 1))),
      set_attribute (name @ ''.top_p'') (get_or kwargs ''top_p'' (PFloat (FloatVal 1))),
      set_attribute (name @ ''.n'') (get_or kwargs ''n'' (PInt 1)),
      set_attribute (name @ ''.stream'') (get_or kwargs ''stream'' (PBool False)),
      set_attribute (name @ ''.stop'') (get_or kwargs ''stop'' (PStr '''')),
      set_attribute (name @ ''.max_tokens'') (get_or kwargs ''max_tokens'' (PFloat FloatInf)),
      set_attribute (name @ ''.presence_penalty'')
        (get_or kwargs ''presence_penalty'' (PFloat (FloatVal 0))),
      set_attribute (name @ ''.frequency_penalty'')
        (get_or kwargs ''frequency_penalty'' (PFloat (FloatVal 0))),
      set_attribute (name @ ''.logit_bias'') (get_or kwargs ''logit_bias'' (PStr '''')),
      set_attribute (name @ ''.name'') (get_or kwargs ''name'' (PStr '''')),
      set_attribute (name @ ''.messages'') (messages_str str_of kwargs)]"

text \<open>Lines 88 to 90: the body of the loop over \<^verbatim>\<open>enumerate(response["choices"])\<close>.\<close>

definition subscript2 :: "pyval \<Rightarrow> string \<Rightarrow> string \<Rightarrow> exn + pyval" where
  "subscript2 v k1 k2 = (case getitem v k1 of Inl e \<Rightarrow> Inl e | Inr w \<Rightarrow> getitem w k2)"

definition choice_key :: "nat \<Rightarrow> string \<Rightarrow> string" where
  "choice_key index field = name @ ''.response.choices.'' @ format_index index @ field"

definition choice_statements :: "nat \<times> pyval \<Rightarrow> stmt list" where
  "choice_statements ic =
     (case ic of (index, choice) \<Rightarrow>
       [set_attribute (choice_key index ''.message.role'') (subscript2 choice ''message'' ''role''),
        set_attribute (choice_key index ''.message.content'')
          (subscript2 choice ''message'' ''content''),
        set_attribute (choice_key index ''.finish_reason'') (getitem choice ''finish_reason'')])"

definition choices_statements :: "pyval \<Rightarrow> stmt list" where
  "choices_statements response =
     (case getitem response ''choices'' of
        Inl e \<Rightarrow> [Inl e]
      | Inr choices \<Rightarrow>
          (case iterate choices of
             Inl e \<Rightarrow> [Inl e]
           | Inr cs \<Rightarrow> concat (map choice_statements (enumerate 0 cs))))"

text \<open>Lines 84 to 94, after the call.\<close>

definition response_statements :: "pyval \<Rightarrow> stmt list" where
  "response_statements response =
     [set_attribute (name @ ''.response.id'') (getitem response ''id''),
      set_attribute (name @ ''.response.object'') (getitem response ''object''),
      set_attribute (name @ ''.response.created'') (getitem response ''created'')]
     @ choices_statements response @
     [set_attribute (name @ ''.response.usage.prompt_tokens'')
        (subscript2 response ''usage'' ''prompt_tokens''),
      set_attribute (name @ ''.response.usage.completion_tokens'')
        (subscript2 response ''usage'' ''completion_tokens''),
      set_attribute (name @ ''.response.usage.total_tokens'')
        (subscript2 response ''usage'' ''total_tokens'')]"

text \<open>
  Lines 54 to 97. \<open>suppress\<close> is what
  \<^verbatim>\<open>context_api.get_value(_SUPPRESS_INSTRUMENTATION_KEY)\<close> returns when the call is made
  (\<^verbatim>\<open>None\<close> when the key is not set). A bare \<^verbatim>\<open>return\<close> returns \<^verbatim>\<open>None\<close>. The
  \<^verbatim>\<open>with\<close> block closes the span however the block is left, and an exception of the
  block goes on to the caller.
\<close>

definition instrumented_create ::
  "(pyval \<Rightarrow> string) \<Rightarrow> pyval \<Rightarrow> callable \<Rightarrow> pyval \<Rightarrow> callable" where
  "instrumented_create str_of suppress wrapped instance args kwargs =
     (if truthy suppress then (Inr PNone, [])
      else
        (case run_statements (request_statements str_of kwargs) of
           (Some e, evs) \<Rightarrow> (Inl e, SpanStart name # evs @ [SpanEnd])
         | (None, evs) \<Rightarrow>
             (case wrapped args kwargs of
                (Inl e, cevs) \<Rightarrow> (Inl e, SpanStart name # evs @ cevs @ [SpanEnd])
              | (Inr response, cevs) \<Rightarrow>
                  (case run_statements (response_statements response) of
                     (Some e, revs) \<Rightarrow> (Inl e, SpanStart name # evs @ cevs @ revs @ [SpanEnd])
                   | (None, revs) \<Rightarrow>
                       (Inr response, SpanStart name # evs @ cevs @ revs @ [SpanEnd])))))"

section \<open>Patching and restoring the client method\<close>

text \<open>
  What \<^verbatim>\<open>openai.ChatCompletion.create\<close> is bound to: the client library's own method,
  or a function wrapper around what was bound before.
\<close>

datatype binding =
    Original "pyval list \<Rightarrow> py_dict \<Rightarrow> exn + pyval"
  | FunctionWrapper binding

text \<open>
  Modelled from the spec: \<^verbatim>\<open>wrapt.wrap_function_wrapper\<close> is a library function that is
  not part of the source. The spec has it install the wrapper on the target method, so that
  later calls run the wrapped logic while the original stays reachable for delegation.
\<close>

definition wrap_function_wrapper :: "binding \<Rightarrow> binding" where
  "wrap_function_wrapper m = FunctionWrapper m"

text \<open>
  Modelled from the spec: \<^verbatim>\<open>unwrap\<close> of \<^verbatim>\<open>opentelemetry.instrumentation.utils\<close> is a
  library function that is not part of the source. The spec has it remove the wrapper and
  restore the original method, and leave a method that was never wrapped as it is.
\<close>

fun unwrap :: "binding \<Rightarrow> binding" where
  "unwrap (FunctionWrapper m) = m"
| "unwrap (Original f) = Original f"

text \<open>Line 99 and lines 102 to 103.\<close>

definition instrument_chat :: "binding \<Rightarrow> binding" where
  "instrument_chat create = wrap_function_wrapper create"

definition uninstrument :: "binding \<Rightarrow> binding" where
  "uninstrument create = unwrap create"

text \<open>
  Calling what the method is bound to. A function wrapper passes the callable it wraps,
  the instance and the caller's arguments to \<open>instrumented_create\<close>.
\<close>

fun call_method :: "(pyval \<Rightarrow> string) \<Rightarrow> pyval \<Rightarrow> pyval \<Rightarrow> binding \<Rightarrow> callable" where
  "call_method str_of suppress instance (Original f) = underlying f"
| "call_method str_of suppress instance (FunctionWrapper m) =
     instrumented_create str_of suppress (call_method str_of suppress instance m) instance"

section \<open>Observations on a trace\<close>

text \<open>The invocations of the client method, and the attribute writes, in order.\<close>

fun calls :: "event list \<Rightarrow> (pyval list \<times> py_dict) list" where
  "calls [] = []"
| "calls (Call args kwargs # evs) = (args, kwargs) # calls evs"
| "calls (ev # evs) = calls evs"

fun attributes :: "event list \<Rightarrow> (string \<times> pyval) list" where
  "attributes [] = []"
| "attributes (SetAttribute key v # evs) = (key, v) # attributes evs"
| "attributes (ev # evs) = attributes evs"

text \<open>A later write to a key replaces an earlier one.\<close>

definition span_attribute :: "event list \<Rightarrow> string \<Rightarrow> pyval option" where
  "span_attribute evs key = map_of (rev (attributes evs)) key"

section \<open>What the specification says\<close>

text \<open>The optional request fields with their defaults.\<close>

definition optional_defaults :: "(string \<times> pyval) list" where
  "optional_defaults =
     [(''temperature'', PFloat (FloatVal 1)),
      (''top_p'', PFloat (FloatVal 1)),
      (''n'', PInt 1),
      (''stream'', PBool False),
      (''stop'', PStr ''''),
      (''max_tokens'', PFloat FloatInf),
      (''presence_penalty'', PFloat (FloatVal 0)),
      (''frequency_penalty'', PFloat (FloatVal 0)),
      (''logit_bias'', PStr ''''),
      (''name'', PStr '''')]"

text \<open>The supplied value when the key is present, the default when it is absent.\<close>

definition supplied_or :: "py_dict \<Rightarrow> string \<Rightarrow> pyval \<Rightarrow> pyval" where
  "supplied_or kwargs key dflt = (case map_of kwargs key of None \<Rightarrow> dflt | Some v \<Rightarrow> v)"




text \<open>
  A valid request: \<^verbatim>\<open>model\<close> is given, and \<^verbatim>\<open>messages\<close> is a sequence of dicts that
  each have a role and a content.
\<close>

definition is_message :: "pyval \<Rightarrow> bool" where
  "is_message message =
     (case message of PDict d \<Rightarrow> contains d ''role'' \<and> contains d ''content'' | _ \<Rightarrow> False)"

definition request_valid :: "py_dict \<Rightarrow> bool" where
  "request_valid kwargs =
     (contains kwargs ''model'' \<and>
      (case map_of kwargs ''messages'' of
         Some (PList ms) \<Rightarrow> list_all is_message ms
       | _ \<Rightarrow> False))"

text \<open>
  A response with every required field: id, object, created, a sequence of choices that
  each have a message with role and content and a finish reason, and a usage with the three
  token counts.
\<close>

definition is_choice :: "pyval \<Rightarrow> bool" where
  "is_choice choice =
     (case choice of
        PDict d \<Rightarrow>
          (case map_of d ''message'' of
             Some (PDict m) \<Rightarrow> contains m ''role'' \<and> contains m ''content''
           | _ \<Rightarrow> False) \<and>
          contains d ''finish_reason''
      | _ \<Rightarrow> False)"

definition is_usage :: "pyval \<Rightarrow> bool" where
  "is_usage usage =
     (case usage of
        PDict u \<Rightarrow>
          contains u ''prompt_tokens'' \<and> contains u ''completion_tokens'' \<and>
          contains u ''total_tokens''
      | _ \<Rightarrow> False)"

definition response_complete :: "pyval \<Rightarrow> bool" where
  "response_complete response =
     (case response of
        PDict d \<Rightarrow>
          contains d ''id'' \<and> contains d ''object'' \<and> contains d ''created'' \<and>
          (case map_of d ''choices'' of
             Some (PList cs) \<Rightarrow> list_all is_choice cs
           | _ \<Rightarrow> False) \<and>
          (case map_of d ''usage'' of Some usage \<Rightarrow> is_usage usage | None \<Rightarrow> False)
      | _ \<Rightarrow> False)"

text \<open>The names of the fields that the response side looks up.\<close>

definition required_response_fields :: "string list" where
  "required_response_fields =
     [''id'', ''object'', ''created'', ''choices'', ''message'', ''role'', ''content'',
      ''finish_reason'', ''usage'', ''prompt_tokens'', ''completion_tokens'', ''total_tokens'']"

text \<open>
  A response of the right shape, whatever fields it lacks: a dict, whose choices (when
  there) are a sequence of dicts, whose messages and usage (when there) are dicts.
\<close>

fun dict_or_absent :: "pyval option \<Rightarrow> bool" where
  "dict_or_absent None = True"
| "dict_or_absent (Some (PDict d)) = True"
| "dict_or_absent (Some v) = False"

definition choice_shaped :: "pyval \<Rightarrow> bool" where
  "choice_shaped choice =
     (case choice of PDict d \<Rightarrow> dict_or_absent (map_of d ''message'') | _ \<Rightarrow> False)"

definition response_shaped :: "pyval \<Rightarrow> bool" where
  "response_shaped response =
     (case response of
        PDict d \<Rightarrow>
          (case map_of d ''choices'' of
             None \<Rightarrow> True
           | Some (PList cs) \<Rightarrow> list_all choice_shaped cs
           | Some v \<Rightarrow> False) \<and>
          dict_or_absent (map_of d ''usage'')
      | _ \<Rightarrow> False)"

text \<open>
  The attribute writes of the request side before the messages: the model and, for every
  optional field, the supplied value or the default.
\<close>

definition request_writes :: "py_dict \<Rightarrow> pyval \<Rightarrow> (string \<times> pyval) list" where
  "request_writes kwargs model =
     (name @ ''.model'', model) #
     map (\<lambda>kd. (name @ ''.'' @ fst kd, supplied_or kwargs (fst kd) (snd kd))) optional_defaults"

text \<open>The three attribute keys of the choice at an index.\<close>

definition choice_keys :: "nat \<Rightarrow> string list" where
  "choice_keys index =
     [choice_key index ''.message.role'', choice_key index ''.message.content'',
      choice_key index ''.finish_reason'']"

text \<open>The writes of a trace that are derived from the response, and those of its choices.\<close>

definition response_attributes :: "event list \<Rightarrow> (string \<times> pyval) list" where
  "response_attributes evs =
     filter (\<lambda>kv. prefix (name @ ''.response.'') (fst kv)) (attributes evs)"

definition choice_attributes :: "event list \<Rightarrow> (string \<times> pyval) list" where
  "choice_attributes evs =
     filter (\<lambda>kv. prefix (name @ ''.response.choices.'') (fst kv)) (attributes evs)"

section \<open>Example inputs\<close>

text \<open>The request of the module's docstring, and a response a chat completion gives.\<close>

definition docstring_kwargs :: py_dict where
  "docstring_kwargs =
     [(''model'', PStr ''gpt-3.5-turbo''),
      (''messages'',
       PList [PDict [(''role'', PStr ''user''),
                     (''content'', PStr ''tell me a joke about opentelemetry'')]])]"

definition sample_response :: pyval where
  "sample_response =
     PDict
      [(''id'', PStr ''chatcmpl-1''),
       (''object'', PStr ''chat.completion''),
       (''created'', PInt 1677652288),
       (''choices'',
        PList [PDict [(''index'', PInt 0),
                      (''message'', PDict [(''role'', PStr ''assistant''),
                                           (''content'', PStr ''Why did the span cross the wire?'')]),
                      (''finish_reason'', PStr ''stop'')]]),
       (''usage'',
        PDict [(''prompt_tokens'', PInt 9), (''completion_tokens'', PInt 12),
               (''total_tokens'', PInt 21)])]"

text \<open>A stand-in for Python's \<^verbatim>\<open>str\<close> where its result does not matter.\<close>

definition no_str :: "pyval \<Rightarrow> string" where
  "no_str v = []"

text \<open>A response with two choices.\<close>

definition two_choices_response :: pyval where
  "two_choices_response =
     PDict
      [(''id'', PStr ''chatcmpl-2''),
       (''object'', PStr ''chat.completion''),
       (''created'', PInt 1677652289),
       (''choices'',
        PList [PDict [(''message'', PDict [(''role'', PStr ''assistant''),
                                           (''content'', PStr ''first'')]),
                      (''finish_reason'', PStr ''stop'')],
               PDict [(''message'', PDict [(''role'', PStr ''assistant''),
                                           (''content'', PStr ''second'')]),
                      (''finish_reason'', PStr ''length'')]]),
       (''usage'',
        PDict [(''prompt_tokens'', PInt 9), (''completion_tokens'', PInt 2),
               (''total_tokens'', PInt 11)])]"


section \<open>Running statements\<close>

lemma run_statements_append:
  "run_statements (xs @ ys) =
     (case run_statements xs of
        (Some e, evs) \<Rightarrow> (Some e, evs)
      | (None, evs) \<Rightarrow> (case run_statements ys of (r, evs') \<Rightarrow> (r, evs @ evs')))"
proof (induction xs)
  case Nil
  show ?case by simp
next
  case (Cons s xs)
  show ?case
  proof (cases s)
    case (Inl e)
    then show ?thesis by simp
  next
    case (Inr ev)
    with Cons show ?thesis by (simp split: prod.splits option.splits)
  qed
qed

lemma run_statements_subset:
  "ev \<in> set (snd (run_statements ss)) \<Longrightarrow> Inr ev \<in> set ss"
proof (induction ss)
  case Nil
  then show ?case by simp
next
  case (Cons s ss)
  then show ?case by (cases s) (auto split: prod.splits)
qed

lemma fst_run_set_attribute:
  "fst (run_statements (set_attribute key r # ss)) =
     (case r of Inl e \<Rightarrow> Some e | Inr v \<Rightarrow> fst (run_statements ss))"
  by (simp add: set_attribute_def split: sum.splits prod.splits)

lemma fst_run_append:
  "fst (run_statements (xs @ ys)) =
     (case fst (run_statements xs) of Some e \<Rightarrow> Some e | None \<Rightarrow> fst (run_statements ys))"
  by (simp add: run_statements_append split: prod.splits option.splits)

lemma fst_run_Nil: "fst (run_statements []) = None"
  by simp

lemma set_attribute_write:
  "set_attribute key r = Inr ev \<Longrightarrow> \<exists>v. ev = SetAttribute key v"
  by (auto simp: set_attribute_def split: sum.splits)

lemma calls_writes:
  "(\<And>ev. ev \<in> set evs \<Longrightarrow> \<exists>key v. ev = SetAttribute key v) \<Longrightarrow> calls evs = []"
proof (induction evs)
  case Nil
  show ?case by simp
next
  case (Cons ev evs)
  then obtain key v where "ev = SetAttribute key v" by (meson list.set_intros(1))
  with Cons show ?case by simp
qed

lemma calls_append: "calls (xs @ ys) = calls xs @ calls ys"
  by (induction xs rule: calls.induct) simp_all

section \<open>Dict lookups\<close>

lemma get_or_supplied: "get_or kwargs key dflt = Inr (supplied_or kwargs key dflt)"
  by (simp add: get_or_def supplied_or_def contains_def dict_getitem_def split: option.splits)

section \<open>The request side\<close>

lemma request_statements_writes:
  assumes "Inr ev \<in> set (request_statements str_of kwargs)"
  shows "\<exists>key v. ev = SetAttribute key v"
  using assms unfolding request_statements_def
  by (auto dest: set_attribute_write [OF sym])

lemma calls_request:
  "calls (snd (run_statements (request_statements str_of kwargs))) = []"
  by (rule calls_writes) (blast dest: run_statements_subset request_statements_writes)

text \<open>
  Of the request statements only the first and the last can raise: the model lookup and
  the flattening of the messages.
\<close>

lemma fst_run_request:
  "fst (run_statements (request_statements str_of kwargs)) =
     (case dict_getitem kwargs ''model'' of
        Inl e \<Rightarrow> Some e
      | Inr m \<Rightarrow> (case messages_str str_of kwargs of Inl e \<Rightarrow> Some e | Inr s \<Rightarrow> None))"
  unfolding request_statements_def
  by (simp only: fst_run_set_attribute get_or_supplied fst_run_Nil sum.case split: sum.splits)

lemma request_missing_model:
  assumes "\<not> contains kwargs ''model''"
  shows "fst (run_statements (request_statements str_of kwargs)) = Some (KeyError ''model'')"
  using assms by (simp add: fst_run_request contains_def dict_getitem_def)

lemma request_missing_messages:
  assumes "contains kwargs ''model''" and "\<not> contains kwargs ''messages''"
  shows "fst (run_statements (request_statements str_of kwargs)) = Some (KeyError ''messages'')"
  using assms
  by (auto simp: fst_run_request contains_def dict_getitem_def messages_str_def)

lemma instrumented_create_request_error:
  assumes "\<not> truthy suppress"
    and "fst (run_statements (request_statements str_of kwargs)) = Some e"
  shows "instrumented_create str_of suppress wrapped instance args kwargs =
           (Inl e,
            SpanStart name # snd (run_statements (request_statements str_of kwargs)) @ [SpanEnd])"
  using assms
  by (cases "run_statements (request_statements str_of kwargs)")
     (simp add: instrumented_create_def)

section \<open>Suppression\<close>

text \<open>
  Claim C2. While the suppression flag is set (the context value is truthy), the
  instrumented call does nothing and returns \<^verbatim>\<open>None\<close>: the trace of the call is empty, so
  the wrapped callable is not invoked, no span is opened or closed and no attribute is
  written, whatever the callable and the arguments are; the caller receives \<^verbatim>\<open>None\<close> and
  no response.
\<close>

theorem suppressed_call_is_skipped:
  assumes "truthy suppress"
  shows "instrumented_create str_of suppress wrapped instance args kwargs = (Inr PNone, [])"
  using assms by (simp add: instrumented_create_def)

theorem suppressed_call_is_skipped_witness:
  "truthy (PBool True) \<and>
   instrumented_create no_str (PBool True) (underlying (\<lambda>args kwargs. Inr sample_response))
     PNone [] docstring_kwargs = (Inr PNone, [])"
  using suppressed_call_is_skipped [of "PBool True" no_str
      "underlying (\<lambda>args kwargs. Inr sample_response)" PNone "[]" docstring_kwargs]
  by simp

section \<open>Required request fields\<close>

text \<open>
  Claim C7. A call that is not suppressed and whose keyword arguments lack \<^verbatim>\<open>model\<close> or
  lack \<^verbatim>\<open>messages\<close> raises the \<^verbatim>\<open>KeyError\<close> of the lookup (of \<^verbatim>\<open>model\<close> when that is
  missing, else of \<^verbatim>\<open>messages\<close>), and the trace of the call holds no invocation of the
  wrapped callable, whatever that callable is.
\<close>

theorem missing_request_field_raises:
  assumes "\<not> truthy suppress"
    and "\<not> contains kwargs ''model'' \<or> \<not> contains kwargs ''messages''"
  shows "fst (instrumented_create str_of suppress wrapped instance args kwargs) =
           Inl (KeyError (if contains kwargs ''model'' then ''messages'' else ''model'')) \<and>
         calls (snd (instrumented_create str_of suppress wrapped instance args kwargs)) = []"
proof -
  let ?k = "if contains kwargs ''model'' then ''messages'' else ''model''"
  have "fst (run_statements (request_statements str_of kwargs)) = Some (KeyError ?k)"
    using assms(2) by (auto simp: request_missing_model request_missing_messages)
  then show ?thesis
    using assms(1) by (simp add: instrumented_create_request_error calls_append calls_request)
qed

theorem missing_request_field_raises_witness:
  "\<not> truthy PNone \<and>
   \<not> contains [(''model'', PStr ''gpt-3.5-turbo'')] ''messages'' \<and>
   fst (instrumented_create no_str PNone (underlying (\<lambda>args kwargs. Inr sample_response))
          PNone [] [(''model'', PStr ''gpt-3.5-turbo'')]) = Inl (KeyError ''messages'') \<and>
   calls (snd (instrumented_create no_str PNone
                 (underlying (\<lambda>args kwargs. Inr sample_response))
                 PNone [] [(''model'', PStr ''gpt-3.5-turbo'')])) = []"
  using missing_request_field_raises [of PNone "[(''model'', PStr ''gpt-3.5-turbo'')]" no_str
      "underlying (\<lambda>args kwargs. Inr sample_response)" PNone "[]"]
  by (simp add: contains_def)

section \<open>The call and the response side\<close>

lemma messages_loop_total:
  "list_all is_message ms \<Longrightarrow> \<exists>s. messages_loop str_of ms acc = Inr s"
proof (induction ms arbitrary: acc)
  case Nil
  show ?case by simp
next
  case (Cons m ms)
  from Cons.prems obtain d r c where m: "m = PDict d" "map_of d ''role'' = Some r"
      "map_of d ''content'' = Some c"
    by (auto simp: is_message_def contains_def split: pyval.splits)
  from Cons.prems have "list_all is_message ms" by simp
  from Cons.IH [OF this] m show ?case
    by (simp add: dict_getitem_def)
qed

lemma request_valid_runs:
  assumes "request_valid kwargs"
  shows "fst (run_statements (request_statements str_of kwargs)) = None"
proof -
  from assms obtain m ms where kw: "map_of kwargs ''model'' = Some m"
      "map_of kwargs ''messages'' = Some (PList ms)" "list_all is_message ms"
    by (auto simp: request_valid_def contains_def split: option.splits pyval.splits)
  from messages_loop_total [OF kw(3)] obtain s where "messages_loop str_of ms [] = Inr s"
    by blast
  with kw show ?thesis
    by (simp add: fst_run_request dict_getitem_def messages_str_def)
qed

text \<open>Once the request side has run through, the wrapped callable is invoked.\<close>

lemma instrumented_create_call:
  assumes "\<not> truthy suppress"
    and "fst (run_statements (request_statements str_of kwargs)) = None"
  shows "instrumented_create str_of suppress wrapped instance args kwargs =
     (case wrapped args kwargs of
        (Inl e, cevs) \<Rightarrow>
          (Inl e, SpanStart name # snd (run_statements (request_statements str_of kwargs))
                    @ cevs @ [SpanEnd])
      | (Inr response, cevs) \<Rightarrow>
          (case fst (run_statements (response_statements response)) of Some e \<Rightarrow> Inl e
             | None \<Rightarrow> Inr response,
           SpanStart name # snd (run_statements (request_statements str_of kwargs))
             @ cevs @ snd (run_statements (response_statements response)) @ [SpanEnd]))"
  using assms
  by (cases "run_statements (request_statements str_of kwargs)")
     (simp add: instrumented_create_def split: prod.splits sum.splits option.splits)

lemma subscript2_dict:
  "map_of d k1 = Some (PDict m) \<Longrightarrow> subscript2 (PDict d) k1 k2 = dict_getitem m k2"
  by (simp add: subscript2_def dict_getitem_def)

lemma subscript2_absent:
  "map_of d k1 = None \<Longrightarrow> subscript2 (PDict d) k1 k2 = Inl (KeyError k1)"
  by (simp add: subscript2_def dict_getitem_def)

lemma choice_complete_runs:
  assumes "is_choice c"
  shows "fst (run_statements (choice_statements (i, c))) = None"
proof -
  from assms obtain d where d: "c = PDict d"
    by (cases c) (simp_all add: is_choice_def)
  with assms obtain v fr where v: "map_of d ''message'' = Some v"
      and fr: "map_of d ''finish_reason'' = Some fr"
    by (cases "map_of d ''message''") (auto simp: is_choice_def contains_def)
  with assms d obtain m where m: "v = PDict m"
    by (cases v) (simp_all add: is_choice_def)
  with assms d v obtain r ct where "map_of m ''role'' = Some r" "map_of m ''content'' = Some ct"
    by (auto simp: is_choice_def contains_def)
  with d v fr m show ?thesis
    by (simp add: choice_statements_def fst_run_set_attribute subscript2_dict dict_getitem_def)
qed

lemma choice_incomplete_raises:
  assumes "choice_shaped c" and "\<not> is_choice c"
  shows "\<exists>k. fst (run_statements (choice_statements (i, c))) = Some (KeyError k)"
proof -
  from assms(1) obtain d where c: "c = PDict d" and m: "dict_or_absent (map_of d ''message'')"
    by (auto simp: choice_shaped_def split: pyval.splits)
  show ?thesis
  proof (cases "map_of d ''message''")
    case None
    with c show ?thesis
      by (simp add: choice_statements_def fst_run_set_attribute subscript2_absent)
  next
    case (Some v)
    with m obtain msg where v: "v = PDict msg" by (cases v) auto
    with Some c assms(2) show ?thesis
      by (auto simp: choice_statements_def fst_run_set_attribute subscript2_dict
            dict_getitem_def is_choice_def contains_def split: option.splits)
  qed
qed

lemma choices_complete_run:
  "list_all is_choice cs \<Longrightarrow>
   fst (run_statements (concat (map choice_statements (enumerate n cs)))) = None"
proof (induction cs arbitrary: n)
  case Nil
  show ?case by simp
next
  case (Cons c cs)
  then show ?case
    by (simp add: fst_run_append choice_complete_runs)
qed

lemma choices_incomplete_raise:
  "list_all choice_shaped cs \<Longrightarrow> \<not> list_all is_choice cs \<Longrightarrow>
   \<exists>k. fst (run_statements (concat (map choice_statements (enumerate n cs)))) =
        Some (KeyError k)"
proof (induction cs arbitrary: n)
  case Nil
  then show ?case by simp
next
  case (Cons c cs)
  show ?case
  proof (cases "is_choice c")
    case True
    with Cons.prems have "list_all choice_shaped cs" "\<not> list_all is_choice cs" by simp_all
    from Cons.IH [OF this] True show ?thesis
      by (simp add: fst_run_append choice_complete_runs)
  next
    case False
    from Cons.prems have "choice_shaped c" by simp
    from choice_incomplete_raises [OF this False] obtain k
      where "fst (run_statements (choice_statements (n, c))) = Some (KeyError k)" by blast
    then show ?thesis by (simp add: fst_run_append)
  qed
qed

lemma fst_run_choices_list:
  "map_of d ''choices'' = Some (PList cs) \<Longrightarrow>
   fst (run_statements (choices_statements (PDict d))) =
     fst (run_statements (concat (map choice_statements (enumerate 0 cs))))"
  by (simp add: choices_statements_def dict_getitem_def)

lemma fst_run_choices_absent:
  "map_of d ''choices'' = None \<Longrightarrow>
   fst (run_statements (choices_statements (PDict d))) = Some (KeyError ''choices'')"
  by (simp add: choices_statements_def dict_getitem_def)

text \<open>The response statements in the order of their lookups.\<close>

lemma fst_run_response:
  "fst (run_statements (response_statements (PDict d))) =
     (case dict_getitem d ''id'' of Inl e \<Rightarrow> Some e | Inr v1 \<Rightarrow>
      case dict_getitem d ''object'' of Inl e \<Rightarrow> Some e | Inr v2 \<Rightarrow>
      case dict_getitem d ''created'' of Inl e \<Rightarrow> Some e | Inr v3 \<Rightarrow>
      case fst (run_statements (choices_statements (PDict d))) of Some e \<Rightarrow> Some e | None \<Rightarrow>
      case subscript2 (PDict d) ''usage'' ''prompt_tokens'' of Inl e \<Rightarrow> Some e | Inr v4 \<Rightarrow>
      case subscript2 (PDict d) ''usage'' ''completion_tokens'' of Inl e \<Rightarrow> Some e | Inr v5 \<Rightarrow>
      case subscript2 (PDict d) ''usage'' ''total_tokens'' of Inl e \<Rightarrow> Some e | Inr v6 \<Rightarrow> None)"
  unfolding response_statements_def
  by (simp add: fst_run_set_attribute fst_run_append split: sum.splits option.splits)

lemma usage_complete:
  assumes "map_of d ''usage'' = Some u" and "is_usage u"
  shows "\<exists>v4 v5 v6. subscript2 (PDict d) ''usage'' ''prompt_tokens'' = Inr v4 \<and>
           subscript2 (PDict d) ''usage'' ''completion_tokens'' = Inr v5 \<and>
           subscript2 (PDict d) ''usage'' ''total_tokens'' = Inr v6"
proof -
  from assms(2) obtain m where "u = PDict m" by (cases u) (simp_all add: is_usage_def)
  with assms show ?thesis
    by (auto simp: is_usage_def contains_def subscript2_dict dict_getitem_def)
qed

lemma response_complete_runs:
  assumes "response_complete response"
  shows "fst (run_statements (response_statements response)) = None"
proof -
  from assms obtain d where d: "response = PDict d"
    by (cases response) (simp_all add: response_complete_def)
  from assms d obtain v1 v2 v3 where top: "map_of d ''id'' = Some v1"
      "map_of d ''object'' = Some v2" "map_of d ''created'' = Some v3"
    by (auto simp: response_complete_def contains_def)
  from assms d obtain ch where ch: "map_of d ''choices'' = Some ch"
    by (cases "map_of d ''choices''") (auto simp: response_complete_def)
  with assms d obtain cs where cs: "ch = PList cs" "list_all is_choice cs"
    by (cases ch) (simp_all add: response_complete_def)
  from assms d obtain u where u: "map_of d ''usage'' = Some u" "is_usage u"
    by (cases "map_of d ''usage''") (auto simp: response_complete_def)
  from usage_complete [OF u] obtain v4 v5 v6 where
    us: "subscript2 (PDict d) ''usage'' ''prompt_tokens'' = Inr v4"
      "subscript2 (PDict d) ''usage'' ''completion_tokens'' = Inr v5"
      "subscript2 (PDict d) ''usage'' ''total_tokens'' = Inr v6"
    by blast
  have "fst (run_statements (choices_statements (PDict d))) = None"
    using ch cs by (simp add: fst_run_choices_list choices_complete_run)
  with d top us show ?thesis
    by (simp add: fst_run_response dict_getitem_def)
qed

lemma usage_incomplete:
  assumes "dict_or_absent (map_of d ''usage'')"
    and "\<not> (case map_of d ''usage'' of Some usage \<Rightarrow> is_usage usage | None \<Rightarrow> False)"
  shows "\<exists>k.
     (case subscript2 (PDict d) ''usage'' ''prompt_tokens'' of Inl e \<Rightarrow> Some e | Inr v4 \<Rightarrow>
      case subscript2 (PDict d) ''usage'' ''completion_tokens'' of Inl e \<Rightarrow> Some e | Inr v5 \<Rightarrow>
      case subscript2 (PDict d) ''usage'' ''total_tokens'' of Inl e \<Rightarrow> Some e | Inr v6 \<Rightarrow> None)
     = Some (KeyError k)"
proof (cases "map_of d ''usage''")
  case None
  then show ?thesis by (simp add: subscript2_absent)
next
  case (Some u)
  with assms(1) obtain m where "u = PDict m" by (cases u) auto
  with Some assms(2) show ?thesis
    by (auto simp: is_usage_def contains_def subscript2_dict dict_getitem_def
          split: option.splits)
qed

lemma response_incomplete_raises:
  assumes "response_shaped response" and "\<not> response_complete response"
  shows "\<exists>k. fst (run_statements (response_statements response)) = Some (KeyError k)"
proof -
  from assms(1) obtain d where d: "response = PDict d"
    by (cases response) (simp_all add: response_shaped_def)
  from assms(1) d have us: "dict_or_absent (map_of d ''usage'')"
    by (simp add: response_shaped_def)
  consider (top) "\<not> contains d ''id'' \<or> \<not> contains d ''object'' \<or> \<not> contains d ''created''"
    | (nochoices) "contains d ''id''" "contains d ''object''" "contains d ''created''"
        "map_of d ''choices'' = None"
    | (choices) cs where "contains d ''id''" "contains d ''object''" "contains d ''created''"
        "map_of d ''choices'' = Some (PList cs)" "list_all choice_shaped cs"
  proof (cases "map_of d ''choices''")
    case None
    then show ?thesis using top nochoices by blast
  next
    case (Some ch)
    with assms(1) d obtain cs where "ch = PList cs" "list_all choice_shaped cs"
      by (cases ch) (simp_all add: response_shaped_def)
    with Some show ?thesis using top choices by blast
  qed
  then show ?thesis
  proof cases
    case top
    then show ?thesis using d
      by (auto simp: fst_run_response dict_getitem_def contains_def split: option.splits)
  next
    case nochoices
    then show ?thesis using d
      by (auto simp: fst_run_response dict_getitem_def contains_def fst_run_choices_absent)
  next
    case (choices cs)
    then obtain v1 v2 v3 where top: "map_of d ''id'' = Some v1"
      "map_of d ''object'' = Some v2" "map_of d ''created'' = Some v3"
      by (auto simp: contains_def)
    show ?thesis
    proof (cases "list_all is_choice cs")
      case True
      with choices assms(2) d
      have nu: "\<not> (case map_of d ''usage'' of Some usage \<Rightarrow> is_usage usage | None \<Rightarrow> False)"
        by (simp add: response_complete_def)
      have "fst (run_statements (choices_statements (PDict d))) = None"
        using choices True by (simp add: fst_run_choices_list choices_complete_run)
      with usage_incomplete [OF us nu] top d show ?thesis
        by (simp add: fst_run_response dict_getitem_def)
    next
      case False
      from choices_incomplete_raise [OF choices(5) False, of 0] obtain k where
        "fst (run_statements (concat (map choice_statements (enumerate 0 cs)))) =
           Some (KeyError k)" by blast
      then have "fst (run_statements (choices_statements (PDict d))) = Some (KeyError k)"
        using choices by (simp add: fst_run_choices_list)
      with top d show ?thesis
        by (simp add: fst_run_response dict_getitem_def)
    qed
  qed
qed

lemma choices_statements_writes:
  assumes "Inr ev \<in> set (choices_statements response)"
  shows "\<exists>key v. ev = SetAttribute key v"
  using assms unfolding choices_statements_def choice_statements_def
  by (auto split: sum.splits dest: set_attribute_write [OF sym])

lemma response_statements_writes:
  assumes "Inr ev \<in> set (response_statements response)"
  shows "\<exists>key v. ev = SetAttribute key v"
  using assms unfolding response_statements_def
  by (auto dest: set_attribute_write [OF sym] choices_statements_writes)

lemma calls_response:
  "calls (snd (run_statements (response_statements response))) = []"
  by (rule calls_writes) (blast dest: run_statements_subset response_statements_writes)

section \<open>Attribute writes of the request side\<close>

lemma attributes_append: "attributes (xs @ ys) = attributes xs @ attributes ys"
  by (induction xs rule: attributes.induct) simp_all

lemma run_set_attribute_Inr:
  "run_statements (set_attribute key (Inr v) # ss) =
     (fst (run_statements ss), SetAttribute key v # snd (run_statements ss))"
  by (simp add: set_attribute_def split: prod.splits)

lemma run_set_attribute_Inl:
  "run_statements (set_attribute key (Inl e) # ss) = (Some e, [])"
  by (simp add: set_attribute_def)

lemma snd_run_request:
  assumes "map_of kwargs ''model'' = Some model"
  shows "attributes (snd (run_statements (request_statements str_of kwargs))) =
           request_writes kwargs model @
           (case messages_str str_of kwargs of
              Inl e \<Rightarrow> []
            | Inr s \<Rightarrow> [(name @ ''.messages'', s)])"
proof (cases "messages_str str_of kwargs")
  case (Inl e)
  then show ?thesis
    using assms unfolding request_statements_def request_writes_def optional_defaults_def
    by (simp add: get_or_supplied dict_getitem_def run_set_attribute_Inr run_set_attribute_Inl)
next
  case (Inr s)
  then show ?thesis
    using assms unfolding request_statements_def request_writes_def optional_defaults_def
    by (simp add: get_or_supplied dict_getitem_def run_set_attribute_Inr)
qed

lemma request_writes_keys:
  "(key, v) \<in> set (request_writes kwargs model) \<Longrightarrow> \<not> prefix (name @ ''.response.'') key"
  unfolding request_writes_def optional_defaults_def name_def
  by auto

lemma request_no_response_attributes:
  "response_attributes (snd (run_statements (request_statements str_of kwargs))) = []"
proof (cases "map_of kwargs ''model''")
  case None
  then have "run_statements (request_statements str_of kwargs) = (Some (KeyError ''model''), [])"
    by (simp add: request_statements_def dict_getitem_def run_set_attribute_Inl)
  then show ?thesis by (simp add: response_attributes_def)
next
  case (Some model)
  have "\<not> prefix (name @ ''.response.'') (name @ ''.messages'')"
    by (simp add: name_def)
  then show ?thesis
    unfolding response_attributes_def snd_run_request [OF Some]
    by (auto simp: filter_empty_conv dest: request_writes_keys split: sum.splits)
qed

section \<open>Which key a lookup failure names\<close>

lemma run_statements_error: "fst (run_statements ss) = Some e \<Longrightarrow> Inl e \<in> set ss"
proof (induction ss)
  case Nil
  then show ?case by simp
next
  case (Cons s ss)
  then show ?case by (cases s) (auto split: prod.splits)
qed

lemma set_attribute_error: "(Inl e = set_attribute key r) = (r = Inl e)"
  by (cases r) (auto simp: set_attribute_def)

lemma getitem_KeyError: "getitem v k' = Inl (KeyError k) \<Longrightarrow> k = k'"
  by (cases v) (auto simp: dict_getitem_def split: option.splits)

lemma subscript2_KeyError: "subscript2 v k1 k2 = Inl (KeyError k) \<Longrightarrow> k = k1 \<or> k = k2"
  by (auto simp: subscript2_def split: sum.splits dest: getitem_KeyError)

lemma iterate_KeyError: "iterate v \<noteq> Inl (KeyError k)"
  by (cases v) simp_all

lemma required_fields:
  "''id'' \<in> set required_response_fields" "''object'' \<in> set required_response_fields"
  "''created'' \<in> set required_response_fields" "''choices'' \<in> set required_response_fields"
  "''message'' \<in> set required_response_fields" "''role'' \<in> set required_response_fields"
  "''content'' \<in> set required_response_fields"
  "''finish_reason'' \<in> set required_response_fields"
  "''usage'' \<in> set required_response_fields"
  "''prompt_tokens'' \<in> set required_response_fields"
  "''completion_tokens'' \<in> set required_response_fields"
  "''total_tokens'' \<in> set required_response_fields"
  by (simp_all add: required_response_fields_def)

lemma getitem_required:
  assumes "getitem v k' = Inl (KeyError k)" and "k' \<in> set required_response_fields"
  shows "k \<in> set required_response_fields"
  using getitem_KeyError [OF assms(1)] assms(2) by simp

lemma subscript2_required:
  assumes "subscript2 v k1 k2 = Inl (KeyError k)"
    and "k1 \<in> set required_response_fields" and "k2 \<in> set required_response_fields"
  shows "k \<in> set required_response_fields"
  using subscript2_KeyError [OF assms(1)] assms(2,3) by blast

lemma choice_statements_KeyError:
  assumes "Inl (KeyError k) \<in> set (choice_statements (i, c))"
  shows "k \<in> set required_response_fields"
proof -
  from assms consider
      "subscript2 c ''message'' ''role'' = Inl (KeyError k)"
    | "subscript2 c ''message'' ''content'' = Inl (KeyError k)"
    | "getitem c ''finish_reason'' = Inl (KeyError k)"
    by (auto simp: choice_statements_def set_attribute_error)
  then show ?thesis
  proof cases
    case 1
    then show ?thesis by (rule subscript2_required) (rule required_fields)+
  next
    case 2
    then show ?thesis by (rule subscript2_required) (rule required_fields)+
  next
    case 3
    then show ?thesis by (rule getitem_required) (rule required_fields)
  qed
qed

lemma choices_statements_KeyError:
  assumes "Inl (KeyError k) \<in> set (choices_statements response)"
  shows "k \<in> set required_response_fields"
proof (cases "getitem response ''choices''")
  case (Inl e)
  with assms have "getitem response ''choices'' = Inl (KeyError k)"
    by (simp add: choices_statements_def)
  then show ?thesis by (rule getitem_required) (rule required_fields)
next
  case (Inr choices)
  note ch = this
  show ?thesis
  proof (cases "iterate choices")
    case (Inl e)
    with ch assms have "iterate choices = Inl (KeyError k)"
      by (simp add: choices_statements_def)
    with iterate_KeyError [of choices k] show ?thesis by simp
  next
    case (Inr cs)
    with ch assms have "Inl (KeyError k) \<in> set (concat (map choice_statements (enumerate 0 cs)))"
      by (simp add: choices_statements_def)
    then obtain ic where "Inl (KeyError k) \<in> set (choice_statements ic)" by auto
    then show ?thesis by (cases ic) (simp add: choice_statements_KeyError)
  qed
qed

lemma response_statements_KeyError:
  assumes "Inl (KeyError k) \<in> set (response_statements response)"
  shows "k \<in> set required_response_fields"
proof -
  from assms consider
      "getitem response ''id'' = Inl (KeyError k)"
    | "getitem response ''object'' = Inl (KeyError k)"
    | "getitem response ''created'' = Inl (KeyError k)"
    | "Inl (KeyError k) \<in> set (choices_statements response)"
    | "subscript2 response ''usage'' ''prompt_tokens'' = Inl (KeyError k)"
    | "subscript2 response ''usage'' ''completion_tokens'' = Inl (KeyError k)"
    | "subscript2 response ''usage'' ''total_tokens'' = Inl (KeyError k)"
    by (auto simp: response_statements_def set_attribute_error)
  then show ?thesis
  proof cases
    case 1
    then show ?thesis by (rule getitem_required) (rule required_fields)
  next
    case 2
    then show ?thesis by (rule getitem_required) (rule required_fields)
  next
    case 3
    then show ?thesis by (rule getitem_required) (rule required_fields)
  next
    case 4
    then show ?thesis by (rule choices_statements_KeyError)
  next
    case 5
    then show ?thesis by (rule subscript2_required) (rule required_fields)+
  next
    case 6
    then show ?thesis by (rule subscript2_required) (rule required_fields)+
  next
    case 7
    then show ?thesis by (rule subscript2_required) (rule required_fields)+
  qed
qed

lemma response_incomplete_raises_required:
  assumes "response_shaped response" and "\<not> response_complete response"
  shows "\<exists>k \<in> set required_response_fields.
           fst (run_statements (response_statements response)) = Some (KeyError k)"
proof -
  from response_incomplete_raises [OF assms] obtain k where
    k: "fst (run_statements (response_statements response)) = Some (KeyError k)" by blast
  then have "Inl (KeyError k) \<in> set (response_statements response)"
    by (rule run_statements_error)
  then have "k \<in> set required_response_fields" by (rule response_statements_KeyError)
  with k show ?thesis by blast
qed

section \<open>Transparency\<close>

text \<open>
  Claim C1. For a call that is not suppressed, with a valid request (\<^verbatim>\<open>model\<close> given,
  \<^verbatim>\<open>messages\<close> a sequence of dicts with role and content), on which the underlying callable
  returns a response that has every required field: the instrumented call returns what the
  underlying callable returns, and the underlying callable is invoked exactly once, with
  the caller's positional and keyword arguments as they were given.
\<close>

theorem wrapped_call_is_transparent:
  assumes "\<not> truthy suppress"
    and "request_valid kwargs"
    and "f args kwargs = Inr response"
    and "response_complete response"
  shows "fst (instrumented_create str_of suppress (underlying f) instance args kwargs) =
           fst (underlying f args kwargs) \<and>
         fst (instrumented_create str_of suppress (underlying f) instance args kwargs) =
           Inr response \<and>
         calls (snd (instrumented_create str_of suppress (underlying f) instance args kwargs)) =
           [(args, kwargs)]"
  using assms
  by (simp add: instrumented_create_call request_valid_runs response_complete_runs
        underlying_def calls_append calls_request calls_response)

theorem wrapped_call_is_transparent_witness:
  "\<not> truthy PNone \<and> request_valid docstring_kwargs \<and> response_complete sample_response \<and>
   fst (instrumented_create no_str PNone (underlying (\<lambda>args kwargs. Inr sample_response))
          PNone [] docstring_kwargs) = Inr sample_response \<and>
   calls (snd (instrumented_create no_str PNone
                 (underlying (\<lambda>args kwargs. Inr sample_response)) PNone [] docstring_kwargs)) =
     [([], docstring_kwargs)]"
proof -
  have v: "request_valid docstring_kwargs"
    by (simp add: request_valid_def docstring_kwargs_def contains_def is_message_def)
  have c: "response_complete sample_response"
    by (simp add: response_complete_def sample_response_def contains_def is_choice_def
          is_usage_def)
  show ?thesis
    using v c wrapped_call_is_transparent [of PNone docstring_kwargs
        "\<lambda>args kwargs. Inr sample_response" "[]" sample_response no_str PNone]
    by (simp add: underlying_def)
qed

section \<open>Failures\<close>

text \<open>
  Claim C6. For a call that is not suppressed and reaches the underlying callable (the
  request side ran through), when the underlying callable raises an exception: the
  instrumented call raises the same exception; the trace is the opening of the span, the
  request attributes, the invocation and the closing of the span, so the span is closed
  and no attribute derived from a response is written.
\<close>

theorem underlying_failure_propagates:
  assumes "\<not> truthy suppress"
    and "fst (run_statements (request_statements str_of kwargs)) = None"
    and "f args kwargs = Inl e"
  shows "instrumented_create str_of suppress (underlying f) instance args kwargs =
           (Inl e,
            SpanStart name # snd (run_statements (request_statements str_of kwargs)) @
              [Call args kwargs, SpanEnd]) \<and>
         response_attributes
           (snd (instrumented_create str_of suppress (underlying f) instance args kwargs)) = []"
proof -
  let ?reqevs = "snd (run_statements (request_statements str_of kwargs))"
  have eq: "instrumented_create str_of suppress (underlying f) instance args kwargs =
              (Inl e, SpanStart name # ?reqevs @ [Call args kwargs, SpanEnd])"
    using assms by (simp add: instrumented_create_call underlying_def)
  have "response_attributes (SpanStart name # ?reqevs @ [Call args kwargs, SpanEnd]) =
          response_attributes ?reqevs"
    by (simp add: response_attributes_def attributes_append)
  then have "response_attributes (SpanStart name # ?reqevs @ [Call args kwargs, SpanEnd]) = []"
    by (simp add: request_no_response_attributes)
  with eq show ?thesis by simp
qed

theorem underlying_failure_propagates_witness:
  "\<not> truthy PNone \<and>
   fst (run_statements (request_statements no_str docstring_kwargs)) = None \<and>
   fst (instrumented_create no_str PNone
          (underlying (\<lambda>args kwargs. Inl (OtherError ''RateLimitError'' PNone)))
          PNone [] docstring_kwargs) = Inl (OtherError ''RateLimitError'' PNone) \<and>
   last (snd (instrumented_create no_str PNone
          (underlying (\<lambda>args kwargs. Inl (OtherError ''RateLimitError'' PNone)))
          PNone [] docstring_kwargs)) = SpanEnd \<and>
   response_attributes
     (snd (instrumented_create no_str PNone
          (underlying (\<lambda>args kwargs. Inl (OtherError ''RateLimitError'' PNone)))
          PNone [] docstring_kwargs)) = []"
proof -
  have v: "request_valid docstring_kwargs"
    by (simp add: request_valid_def docstring_kwargs_def contains_def is_message_def)
  have r: "fst (run_statements (request_statements no_str docstring_kwargs)) = None"
    using v by (rule request_valid_runs)
  have n: "\<not> truthy PNone" by simp
  note t = underlying_failure_propagates [of PNone no_str docstring_kwargs
      "\<lambda>args kwargs. Inl (OtherError ''RateLimitError'' PNone)" "[]"
      "OtherError ''RateLimitError'' PNone" PNone, OF n r refl]
  show ?thesis
    using r t [THEN conjunct2] by (simp add: t [THEN conjunct1])
qed

text \<open>
  Claim C8. For a call that is not suppressed and reaches the underlying callable, when
  the underlying callable returns a response of the right shape that lacks a required
  field: the instrumented call raises the \<^verbatim>\<open>KeyError\<close> of a required field instead of
  returning the response, although the underlying callable was invoked (once, with the
  caller's arguments).
\<close>

theorem incomplete_response_raises:
  assumes "\<not> truthy suppress"
    and "fst (run_statements (request_statements str_of kwargs)) = None"
    and "f args kwargs = Inr response"
    and "response_shaped response"
    and "\<not> response_complete response"
  shows "\<exists>k \<in> set required_response_fields.
           fst (instrumented_create str_of suppress (underlying f) instance args kwargs) =
             Inl (KeyError k) \<and>
           calls (snd (instrumented_create str_of suppress (underlying f) instance args
                         kwargs)) = [(args, kwargs)]"
proof -
  from response_incomplete_raises_required [OF assms(4,5)] obtain k where
    "k \<in> set required_response_fields"
    "fst (run_statements (response_statements response)) = Some (KeyError k)" by blast
  with assms(1-3) show ?thesis
    by (auto simp: instrumented_create_call underlying_def calls_append calls_request
          calls_response)
qed

theorem incomplete_response_raises_witness:
  "\<not> truthy PNone \<and>
   fst (run_statements (request_statements no_str docstring_kwargs)) = None \<and>
   response_shaped (PDict [(''id'', PStr ''chatcmpl-1'')]) \<and>
   \<not> response_complete (PDict [(''id'', PStr ''chatcmpl-1'')]) \<and>
   (\<exists>k \<in> set required_response_fields.
        fst (instrumented_create no_str PNone
               (underlying (\<lambda>args kwargs. Inr (PDict [(''id'', PStr ''chatcmpl-1'')])))
               PNone [] docstring_kwargs) = Inl (KeyError k) \<and>
        calls (snd (instrumented_create no_str PNone
               (underlying (\<lambda>args kwargs. Inr (PDict [(''id'', PStr ''chatcmpl-1'')])))
               PNone [] docstring_kwargs)) = [([], docstring_kwargs)])"
proof -
  have n: "\<not> truthy PNone" by simp
  have v: "request_valid docstring_kwargs"
    by (simp add: request_valid_def docstring_kwargs_def contains_def is_message_def)
  have r: "fst (run_statements (request_statements no_str docstring_kwargs)) = None"
    using v by (rule request_valid_runs)
  have s: "response_shaped (PDict [(''id'', PStr ''chatcmpl-1'')])"
    by (simp add: response_shaped_def)
  have c: "\<not> response_complete (PDict [(''id'', PStr ''chatcmpl-1'')])"
    by (simp add: response_complete_def contains_def)
  note t = incomplete_response_raises [of PNone no_str docstring_kwargs
      "\<lambda>args kwargs. Inr (PDict [(''id'', PStr ''chatcmpl-1'')])" "[]"
      "PDict [(''id'', PStr ''chatcmpl-1'')]" PNone, OF n r refl s c]
  show ?thesis
    by (intro conjI n r s c t)
qed

section \<open>Keyword arguments only\<close>

text \<open>
  Claim C10. The request side reads keyword arguments only. For a call that is not
  suppressed, whose keyword arguments have no \<^verbatim>\<open>model\<close> or no \<^verbatim>\<open>messages\<close> (they may
  be among the positional arguments), and which the underlying callable accepts and
  answers: the direct call returns the response, while the instrumented call raises the
  \<^verbatim>\<open>KeyError\<close> of the missing keyword and does not invoke the underlying callable.
\<close>

theorem keyword_only_projection:
  assumes "\<not> truthy suppress"
    and "\<not> contains kwargs ''model'' \<or> \<not> contains kwargs ''messages''"
    and "f args kwargs = Inr response"
  shows "fst (underlying f args kwargs) = Inr response \<and>
         fst (instrumented_create str_of suppress (underlying f) instance args kwargs) =
           Inl (KeyError (if contains kwargs ''model'' then ''messages'' else ''model'')) \<and>
         calls (snd (instrumented_create str_of suppress (underlying f) instance args kwargs)) =
           []"
proof (cases "contains kwargs ''model''")
  case True
  with assms(2) have "\<not> contains kwargs ''messages''" by simp
  with True assms(1,3) show ?thesis
    by (simp add: request_missing_messages instrumented_create_request_error underlying_def
          calls_append calls_request)
next
  case False
  with assms(1,3) show ?thesis
    by (simp add: request_missing_model instrumented_create_request_error underlying_def
          calls_append calls_request)
qed

theorem keyword_only_projection_witness:
  "\<not> truthy PNone \<and>
   \<not> contains (tl docstring_kwargs) ''model'' \<and>
   fst (underlying (\<lambda>args kwargs. Inr sample_response) [PStr ''gpt-3.5-turbo'']
          (tl docstring_kwargs)) = Inr sample_response \<and>
   fst (instrumented_create no_str PNone (underlying (\<lambda>args kwargs. Inr sample_response))
          PNone [PStr ''gpt-3.5-turbo''] (tl docstring_kwargs)) = Inl (KeyError ''model'') \<and>
   calls (snd (instrumented_create no_str PNone
                 (underlying (\<lambda>args kwargs. Inr sample_response))
                 PNone [PStr ''gpt-3.5-turbo''] (tl docstring_kwargs))) = []"
proof -
  have c: "\<not> contains (tl docstring_kwargs) ''model''"
    by (simp add: docstring_kwargs_def contains_def)
  show ?thesis
    using c keyword_only_projection [of PNone "tl docstring_kwargs"
        "\<lambda>args kwargs. Inr sample_response" "[PStr ''gpt-3.5-turbo'']" sample_response no_str
        PNone]
    by simp
qed

section \<open>Attributes of a span\<close>










lemma map_of_rev_distinct:
  assumes "distinct (map fst xs)" and "(k, v) \<in> set xs"
  shows "map_of (rev xs) k = Some v"
proof -
  have "distinct (map fst (rev xs))" using assms(1) by (simp add: rev_map [symmetric])
  moreover have "(k, v) \<in> set (rev xs)" using assms(2) by simp
  ultimately show ?thesis by (rule map_of_is_SomeI)
qed






section \<open>Optional request fields\<close>



section \<open>Flattening of the messages\<close>



section \<open>Keys of the choices\<close>

lemma of_char_digit: "d < 10 \<Longrightarrow> (of_char (digit_char d) :: nat) = 48 + d"
  by (simp add: digit_char_def)

lemma digit_char_not_dot: "d < 10 \<Longrightarrow> digit_char d \<noteq> CHR ''.''"
proof
  assume d: "d < 10" and "digit_char d = CHR ''.''"
  then have "(of_char (digit_char d) :: nat) = of_char CHR ''.''" by simp
  with d show False by (simp add: of_char_digit)
qed

lemma format_index_unfold:
  "format_index n =
     (if n < 10 then [digit_char n] else format_index (n div 10) @ [digit_char (n mod 10)])"
  by (rule format_index.simps)

lemma format_index_no_dot: "CHR ''.'' \<notin> set (format_index n)"
proof (induction n rule: format_index.induct)
  case (1 n)
  show ?case
  proof (cases "n < 10")
    case True
    then have "format_index n = [digit_char n]" by (simp add: format_index_unfold [of n])
    with True show ?thesis
      using digit_char_not_dot [of n] by simp
  next
    case False
    then have "format_index n = format_index (n div 10) @ [digit_char (n mod 10)]"
      by (simp add: format_index_unfold [of n])
    with False show ?thesis
      using "1.IH" digit_char_not_dot [of "n mod 10"] by simp
  qed
qed


lemma format_index_value:
  "foldl (\<lambda>a c. 10 * a + (of_char c - 48)) (0::nat) (format_index n) = n"
proof (induction n rule: format_index.induct)
  case (1 n)
  show ?case
  proof (cases "n < 10")
    case True
    then have "format_index n = [digit_char n]" by (simp add: format_index_unfold [of n])
    with True show ?thesis by (simp add: of_char_digit)
  next
    case False
    then have "format_index n = format_index (n div 10) @ [digit_char (n mod 10)]"
      by (simp add: format_index_unfold [of n])
    with False "1.IH" show ?thesis by (simp add: of_char_digit)
  qed
qed

lemma format_index_inj:
  assumes "format_index i = format_index j"
  shows "i = j"
proof -
  have "foldl (\<lambda>a c. 10 * a + (of_char c - 48)) (0::nat) (format_index i) =
        foldl (\<lambda>a c. 10 * a + (of_char c - 48)) (0::nat) (format_index j)"
    by (simp only: assms)
  then show ?thesis by (simp only: format_index_value)
qed

lemma takeWhile_format_index:
  "takeWhile (\<lambda>c. c \<noteq> CHR ''.'') (format_index n @ CHR ''.'' # u) = format_index n"
proof -
  have "\<And>x. x \<in> set (format_index n) \<Longrightarrow> x \<noteq> CHR ''.''"
    using format_index_no_dot [of n] by blast
  then have "takeWhile (\<lambda>c. c \<noteq> CHR ''.'') (format_index n @ CHR ''.'' # u) =
               format_index n @ takeWhile (\<lambda>c. c \<noteq> CHR ''.'') (CHR ''.'' # u)"
    by (rule takeWhile_append2)
  then show ?thesis by simp
qed

lemma format_index_suffix_inj:
  assumes "format_index i @ CHR ''.'' # s = format_index j @ CHR ''.'' # t"
  shows "i = j \<and> s = t"
proof -
  have "takeWhile (\<lambda>c. c \<noteq> CHR ''.'') (format_index i @ CHR ''.'' # s) =
        takeWhile (\<lambda>c. c \<noteq> CHR ''.'') (format_index j @ CHR ''.'' # t)"
    by (simp only: assms)
  then have "format_index i = format_index j" by (simp only: takeWhile_format_index)
  then have "i = j" by (rule format_index_inj)
  with assms show ?thesis by simp
qed

lemma choice_key_inj:
  assumes "choice_key i (CHR ''.'' # s) = choice_key j (CHR ''.'' # t)"
  shows "i = j \<and> s = t"
proof -
  from assms have "format_index i @ CHR ''.'' # s = format_index j @ CHR ''.'' # t"
    by (simp add: choice_key_def)
  then show ?thesis by (rule format_index_suffix_inj)
qed

lemma format_index_0: "format_index 0 = ''0''"
  by code_simp

lemma format_index_1: "format_index (Suc 0) = ''1''"
  by code_simp

section \<open>Attribute writes of the response side\<close>

lemma choice_run_success:
  assumes "fst (run_statements (choice_statements (i, c))) = None"
  shows "\<exists>r ct fr.
           subscript2 c ''message'' ''role'' = Inr r \<and>
           subscript2 c ''message'' ''content'' = Inr ct \<and>
           getitem c ''finish_reason'' = Inr fr \<and>
           attributes (snd (run_statements (choice_statements (i, c)))) =
             [(choice_key i ''.message.role'', r), (choice_key i ''.message.content'', ct),
              (choice_key i ''.finish_reason'', fr)]"
proof -
  from assms obtain r where r: "subscript2 c ''message'' ''role'' = Inr r"
    by (cases "subscript2 c ''message'' ''role''")
       (simp_all add: choice_statements_def fst_run_set_attribute)
  from assms r obtain ct where ct: "subscript2 c ''message'' ''content'' = Inr ct"
    by (cases "subscript2 c ''message'' ''content''")
       (simp_all add: choice_statements_def fst_run_set_attribute)
  from assms r ct obtain fr where fr: "getitem c ''finish_reason'' = Inr fr"
    by (cases "getitem c ''finish_reason''")
       (simp_all add: choice_statements_def fst_run_set_attribute)
  from r ct fr show ?thesis
    by (simp add: choice_statements_def run_set_attribute_Inr)
qed

lemma snd_run_append:
  "fst (run_statements xs) = None \<Longrightarrow>
   snd (run_statements (xs @ ys)) = snd (run_statements xs) @ snd (run_statements ys)"
  by (cases "run_statements xs"; cases "run_statements ys") (simp add: run_statements_append)

lemma choices_run_success:
  "fst (run_statements (concat (map choice_statements (enumerate n cs)))) = None \<Longrightarrow>
   map fst (attributes (snd (run_statements (concat (map choice_statements (enumerate n cs))))))
     = concat (map choice_keys [n..<n + length cs]) \<and>
   (\<forall>i<length cs. \<exists>r ct fr.
      subscript2 (cs ! i) ''message'' ''role'' = Inr r \<and>
      subscript2 (cs ! i) ''message'' ''content'' = Inr ct \<and>
      getitem (cs ! i) ''finish_reason'' = Inr fr \<and>
      {(choice_key (n + i) ''.message.role'', r), (choice_key (n + i) ''.message.content'', ct),
       (choice_key (n + i) ''.finish_reason'', fr)}
        \<subseteq> set (attributes
                 (snd (run_statements (concat (map choice_statements (enumerate n cs)))))))"
proof (induction cs arbitrary: n)
  case Nil
  show ?case by simp
next
  case (Cons c cs)
  let ?hd = "run_statements (choice_statements (n, c))"
  let ?tl = "run_statements (concat (map choice_statements (enumerate (Suc n) cs)))"
  from Cons.prems have h: "fst ?hd = None"
    by (simp add: fst_run_append split: option.splits)
  with Cons.prems have t: "fst ?tl = None"
    by (simp add: fst_run_append)
  have split: "attributes (snd (run_statements
                  (concat (map choice_statements (enumerate n (c # cs)))))) =
               attributes (snd ?hd) @ attributes (snd ?tl)"
    using h by (simp add: snd_run_append attributes_append)
  from choice_run_success [OF h] obtain r ct fr where
    v: "subscript2 c ''message'' ''role'' = Inr r"
       "subscript2 c ''message'' ''content'' = Inr ct"
       "getitem c ''finish_reason'' = Inr fr"
    and a: "attributes (snd ?hd) =
              [(choice_key n ''.message.role'', r), (choice_key n ''.message.content'', ct),
               (choice_key n ''.finish_reason'', fr)]"
    by blast
  note ih = Cons.IH [OF t]
  have keys: "map fst (attributes (snd (run_statements
                  (concat (map choice_statements (enumerate n (c # cs))))))) =
              concat (map choice_keys [n..<n + length (c # cs)])"
  proof -
    have l: "n + length (c # cs) = Suc n + length cs" by simp
    have "n < Suc n + length cs" by simp
    then have "[n..<Suc n + length cs] = n # [Suc n..<Suc n + length cs]"
      by (rule upt_conv_Cons)
    then have u: "[n..<n + length (c # cs)] = n # [Suc n..<Suc n + length cs]"
      by (simp only: l)
    have "map fst (attributes (snd ?hd)) = choice_keys n"
      by (simp add: a choice_keys_def)
    with ih [THEN conjunct1] show ?thesis
      unfolding split u by simp
  qed
  have vals: "\<exists>r ct fr.
      subscript2 ((c # cs) ! i) ''message'' ''role'' = Inr r \<and>
      subscript2 ((c # cs) ! i) ''message'' ''content'' = Inr ct \<and>
      getitem ((c # cs) ! i) ''finish_reason'' = Inr fr \<and>
      {(choice_key (n + i) ''.message.role'', r), (choice_key (n + i) ''.message.content'', ct),
       (choice_key (n + i) ''.finish_reason'', fr)}
        \<subseteq> set (attributes (snd (run_statements
                  (concat (map choice_statements (enumerate n (c # cs)))))))"
    if "i < length (c # cs)" for i
  proof (cases i)
    case 0
    with v a show ?thesis unfolding split by simp
  next
    case (Suc j)
    with that have "j < length cs" by simp
    with ih [THEN conjunct2] obtain r' ct' fr' where
      "subscript2 (cs ! j) ''message'' ''role'' = Inr r'"
      "subscript2 (cs ! j) ''message'' ''content'' = Inr ct'"
      "getitem (cs ! j) ''finish_reason'' = Inr fr'"
      "{(choice_key (Suc n + j) ''.message.role'', r'),
        (choice_key (Suc n + j) ''.message.content'', ct'),
        (choice_key (Suc n + j) ''.finish_reason'', fr')} \<subseteq> set (attributes (snd ?tl))"
      by blast
    with Suc show ?thesis unfolding split by simp
  qed
  from keys vals show ?case by blast
qed

lemma in_choice_keys:
  "key \<in> set (choice_keys i) \<Longrightarrow> \<exists>s. key = choice_key i (CHR ''.'' # s)"
  by (auto simp: choice_keys_def)

lemma choice_keys_distinct: "distinct (choice_keys i)"
  by (simp add: choice_keys_def choice_key_def)

lemma in_concat_choice_keys:
  assumes "key \<in> set (concat (map choice_keys [n..<m]))"
  shows "\<exists>j s. n \<le> j \<and> j < m \<and> key = choice_key j (CHR ''.'' # s)"
proof -
  from assms obtain j where "j \<in> set [n..<m]" "key \<in> set (choice_keys j)" by auto
  then show ?thesis using in_choice_keys [of key j] by auto
qed

lemma all_choice_keys_distinct: "distinct (concat (map choice_keys [n..<m]))"
proof (induction m)
  case 0
  show ?case by simp
next
  case (Suc m)
  show ?case
  proof (cases "n \<le> m")
    case False
    then show ?thesis by simp
  next
    case True
    have "key \<notin> set (choice_keys m)" if "key \<in> set (concat (map choice_keys [n..<m]))" for key
    proof
      assume "key \<in> set (choice_keys m)"
      then obtain t where t: "key = choice_key m (CHR ''.'' # t)"
        using in_choice_keys by blast
      from in_concat_choice_keys [OF that] obtain j s where
        "j < m" "key = choice_key j (CHR ''.'' # s)" by blast
      with t choice_key_inj [of j s m t] show False by simp
    qed
    then have "set (concat (map choice_keys [n..<m])) \<inter> set (choice_keys m) = {}"
      by blast
    with True Suc.IH choice_keys_distinct [of m] show ?thesis by simp
  qed
qed

lemma choice_key_prefix: "prefix (name @ ''.response.choices.'') (choice_key i s)"
  by (simp add: choice_key_def)

lemma lookup_middle:
  assumes "distinct (map fst mid)" and "(k, v) \<in> set mid" and "k \<notin> fst ` set post"
  shows "map_of (rev (pre @ mid @ post)) k = Some v"
proof -
  have "map_of (rev post) k = None"
    using assms(3) by (simp add: map_of_eq_None_iff)
  moreover have "map_of (rev mid) k = Some v"
    by (rule map_of_rev_distinct [OF assms(1,2)])
  ultimately show ?thesis by (simp add: map_add_def)
qed

lemma response_run_success:
  assumes "fst (run_statements (response_statements (PDict d))) = None"
    and "map_of d ''choices'' = Some (PList cs)"
  shows "fst (run_statements (concat (map choice_statements (enumerate 0 cs)))) = None \<and>
         (\<exists>top usage.
            attributes (snd (run_statements (response_statements (PDict d)))) =
              top @
              attributes (snd (run_statements (concat (map choice_statements (enumerate 0 cs)))))
              @ usage \<and>
            (\<forall>kv \<in> set (top @ usage). \<not> prefix (name @ ''.response.choices.'') (fst kv)))"
proof -
  let ?C = "concat (map choice_statements (enumerate 0 cs))"
  have cs_eq: "choices_statements (PDict d) = ?C"
    using assms(2) by (simp add: choices_statements_def dict_getitem_def)
  from assms(1) obtain v1 where v1: "dict_getitem d ''id'' = Inr v1"
    by (cases "dict_getitem d ''id''") (simp_all add: fst_run_response)
  from assms(1) v1 obtain v2 where v2: "dict_getitem d ''object'' = Inr v2"
    by (cases "dict_getitem d ''object''") (simp_all add: fst_run_response)
  from assms(1) v1 v2 obtain v3 where v3: "dict_getitem d ''created'' = Inr v3"
    by (cases "dict_getitem d ''created''") (simp_all add: fst_run_response)
  from assms(1) v1 v2 v3 have c: "fst (run_statements ?C) = None"
    by (cases "fst (run_statements ?C)") (simp_all add: fst_run_response cs_eq)
  from assms(1) v1 v2 v3 c obtain v4 where
    v4: "subscript2 (PDict d) ''usage'' ''prompt_tokens'' = Inr v4"
    by (cases "subscript2 (PDict d) ''usage'' ''prompt_tokens''")
       (simp_all add: fst_run_response cs_eq)
  from assms(1) v1 v2 v3 c v4 obtain v5 where
    v5: "subscript2 (PDict d) ''usage'' ''completion_tokens'' = Inr v5"
    by (cases "subscript2 (PDict d) ''usage'' ''completion_tokens''")
       (simp_all add: fst_run_response cs_eq)
  from assms(1) v1 v2 v3 c v4 v5 obtain v6 where
    v6: "subscript2 (PDict d) ''usage'' ''total_tokens'' = Inr v6"
    by (cases "subscript2 (PDict d) ''usage'' ''total_tokens''")
       (simp_all add: fst_run_response cs_eq)
  let ?top = "[(name @ ''.response.id'', v1), (name @ ''.response.object'', v2),
               (name @ ''.response.created'', v3)]"
  let ?usage = "[(name @ ''.response.usage.prompt_tokens'', v4),
                 (name @ ''.response.usage.completion_tokens'', v5),
                 (name @ ''.response.usage.total_tokens'', v6)]"
  have "attributes (snd (run_statements (response_statements (PDict d)))) =
          ?top @ attributes (snd (run_statements ?C)) @ ?usage"
    using v1 v2 v3 v4 v5 v6 c
    by (simp add: response_statements_def cs_eq run_set_attribute_Inr snd_run_append
          attributes_append)
  moreover have "\<forall>kv \<in> set (?top @ ?usage). \<not> prefix (name @ ''.response.choices.'') (fst kv)"
    by (simp add: name_def)
  ultimately show ?thesis using c by blast
qed

lemma returned_response:
  assumes "\<not> truthy suppress"
    and "fst (instrumented_create str_of suppress (underlying f) instance args kwargs) =
           Inr response"
  shows "fst (run_statements (response_statements response)) = None \<and>
         attributes (snd (instrumented_create str_of suppress (underlying f) instance args
                            kwargs)) =
           attributes (snd (run_statements (request_statements str_of kwargs))) @
           attributes (snd (run_statements (response_statements response)))"
proof (cases "fst (run_statements (request_statements str_of kwargs))")
  case (Some e)
  with assms show ?thesis by (simp add: instrumented_create_request_error)
next
  case None
  show ?thesis
  proof (cases "f args kwargs")
    case (Inl e)
    with assms None show ?thesis by (simp add: instrumented_create_call underlying_def)
  next
    case (Inr r)
    with assms None show ?thesis
      by (cases "fst (run_statements (response_statements r))")
         (simp_all add: instrumented_create_call underlying_def attributes_append)
  qed
qed

lemma request_keys_not_choices:
  assumes "kv \<in> set (attributes (snd (run_statements (request_statements str_of kwargs))))"
  shows "\<not> prefix (name @ ''.response.choices.'') (fst kv)"
proof
  assume "prefix (name @ ''.response.choices.'') (fst kv)"
  then have "prefix (name @ ''.response.'') (fst kv)" by (auto simp: prefix_def)
  with assms have
    "kv \<in> set (response_attributes (snd (run_statements (request_statements str_of kwargs))))"
    by (simp add: response_attributes_def)
  then show False by (simp add: request_no_response_attributes)
qed

section \<open>Flattening of the choices\<close>

text \<open>
  Claim C5. For a call that is not suppressed and returns a response (so the response was
  projected without an exception) whose choices are a sequence of length \<open>k\<close>: the
  attributes written under \<^verbatim>\<open>openai.chat.response.choices.\<close> are, in order, the three
  keys (message.role, message.content, finish_reason) of index 0, then of index 1, up to
  index \<open>k - 1\<close>, and no others; and for every \<open>i < k\<close> the three attributes of index
  \<open>i\<close> are the role and content of the message and the finish reason of the \<open>i\<close>-th
  choice of the sequence.
\<close>

theorem choices_flattening:
  assumes "\<not> truthy suppress"
    and "fst (instrumented_create str_of suppress (underlying f) instance args kwargs) =
           Inr response"
    and "getitem response ''choices'' = Inr (PList cs)"
  shows "map fst (choice_attributes
           (snd (instrumented_create str_of suppress (underlying f) instance args kwargs))) =
           concat (map choice_keys [0..<length cs]) \<and>
         (\<forall>i<length cs. \<exists>r ct fr.
            subscript2 (cs ! i) ''message'' ''role'' = Inr r \<and>
            subscript2 (cs ! i) ''message'' ''content'' = Inr ct \<and>
            getitem (cs ! i) ''finish_reason'' = Inr fr \<and>
            span_attribute
              (snd (instrumented_create str_of suppress (underlying f) instance args kwargs))
              (choice_key i ''.message.role'') = Some r \<and>
            span_attribute
              (snd (instrumented_create str_of suppress (underlying f) instance args kwargs))
              (choice_key i ''.message.content'') = Some ct \<and>
            span_attribute
              (snd (instrumented_create str_of suppress (underlying f) instance args kwargs))
              (choice_key i ''.finish_reason'') = Some fr)"
proof -
  let ?evs = "snd (instrumented_create str_of suppress (underlying f) instance args kwargs)"
  let ?A = "attributes (snd (run_statements (request_statements str_of kwargs)))"
  let ?C = "attributes (snd (run_statements (concat (map choice_statements (enumerate 0 cs)))))"
  let ?P = "\<lambda>kv. prefix (name @ ''.response.choices.'') (fst kv)"
  from assms(3) obtain d where d: "response = PDict d"
    by (cases response) simp_all
  with assms(3) have ch: "map_of d ''choices'' = Some (PList cs)"
    by (simp add: dict_getitem_def split: option.splits)
  from returned_response [OF assms(1,2)] d
  have ok: "fst (run_statements (response_statements (PDict d))) = None"
    and at: "attributes ?evs = ?A @ attributes (snd (run_statements (response_statements (PDict d))))"
    by simp_all
  from response_run_success [OF ok ch] obtain top usage where
    c: "fst (run_statements (concat (map choice_statements (enumerate 0 cs)))) = None"
    and r: "attributes (snd (run_statements (response_statements (PDict d)))) =
              top @ ?C @ usage"
    and tu: "\<forall>kv \<in> set (top @ usage). \<not> ?P kv"
    by blast
  from choices_run_success [OF c]
  have keys: "map fst ?C = concat (map choice_keys [0..<length cs])"
    and vals: "\<forall>i<length cs. \<exists>r ct fr.
      subscript2 (cs ! i) ''message'' ''role'' = Inr r \<and>
      subscript2 (cs ! i) ''message'' ''content'' = Inr ct \<and>
      getitem (cs ! i) ''finish_reason'' = Inr fr \<and>
      {(choice_key i ''.message.role'', r), (choice_key i ''.message.content'', ct),
       (choice_key i ''.finish_reason'', fr)} \<subseteq> set ?C"
    by simp_all
  have all: "attributes ?evs = (?A @ top) @ ?C @ usage"
    by (simp add: at r)
  have PC: "?P kv" if "kv \<in> set ?C" for kv
  proof -
    from that have "fst kv \<in> set (map fst ?C)" by simp
    then have "fst kv \<in> set (concat (map choice_keys [0..<length cs]))"
      by (simp only: keys)
    from in_concat_choice_keys [OF this] show ?thesis
      by (auto simp: choice_key_prefix)
  qed
  have "filter ?P (attributes ?evs) = ?C"
  proof -
    have "filter ?P ?A = []"
      by (simp add: filter_empty_conv request_keys_not_choices)
    moreover have "filter ?P top = []" "filter ?P usage = []"
      using tu by (simp_all add: filter_empty_conv)
    moreover have "filter ?P ?C = ?C"
      using PC by (simp add: filter_id_conv)
    ultimately show ?thesis by (simp add: all)
  qed
  then have first: "map fst (choice_attributes ?evs) = concat (map choice_keys [0..<length cs])"
    by (simp add: choice_attributes_def keys)
  have dist: "distinct (map fst ?C)"
    by (simp only: keys all_choice_keys_distinct)
  have look: "span_attribute ?evs (choice_key i s) = Some v"
    if "(choice_key i s, v) \<in> set ?C" for i s v
  proof -
    have "choice_key i s \<notin> fst ` set usage"
    proof
      assume "choice_key i s \<in> fst ` set usage"
      then obtain kv where kv: "kv \<in> set usage" "fst kv = choice_key i s" by auto
      from kv(1) have "kv \<in> set (top @ usage)" by simp
      with tu have "\<not> ?P kv" by (rule bspec)
      with kv(2) choice_key_prefix [of i s] show False by simp
    qed
    from lookup_middle [OF dist that this, of "?A @ top"] show ?thesis
      by (simp only: span_attribute_def all)
  qed
  have second: "\<exists>r ct fr.
      subscript2 (cs ! i) ''message'' ''role'' = Inr r \<and>
      subscript2 (cs ! i) ''message'' ''content'' = Inr ct \<and>
      getitem (cs ! i) ''finish_reason'' = Inr fr \<and>
      span_attribute ?evs (choice_key i ''.message.role'') = Some r \<and>
      span_attribute ?evs (choice_key i ''.message.content'') = Some ct \<and>
      span_attribute ?evs (choice_key i ''.finish_reason'') = Some fr"
    if "i < length cs" for i
  proof -
    from vals that obtain r ct fr where
      v: "subscript2 (cs ! i) ''message'' ''role'' = Inr r"
         "subscript2 (cs ! i) ''message'' ''content'' = Inr ct"
         "getitem (cs ! i) ''finish_reason'' = Inr fr"
      and m: "(choice_key i ''.message.role'', r) \<in> set ?C"
         "(choice_key i ''.message.content'', ct) \<in> set ?C"
         "(choice_key i ''.finish_reason'', fr) \<in> set ?C"
      by auto
    from v look [OF m(1)] look [OF m(2)] look [OF m(3)] show ?thesis by blast
  qed
  from first second show ?thesis by blast
qed

theorem choices_flattening_witness:
  "\<not> truthy PNone \<and>
   fst (instrumented_create no_str PNone (underlying (\<lambda>args kwargs. Inr two_choices_response))
          PNone [] docstring_kwargs) = Inr two_choices_response \<and>
   map fst (choice_attributes
     (snd (instrumented_create no_str PNone
             (underlying (\<lambda>args kwargs. Inr two_choices_response)) PNone [] docstring_kwargs))) =
     [''openai.chat.response.choices.0.message.role'',
      ''openai.chat.response.choices.0.message.content'',
      ''openai.chat.response.choices.0.finish_reason'',
      ''openai.chat.response.choices.1.message.role'',
      ''openai.chat.response.choices.1.message.content'',
      ''openai.chat.response.choices.1.finish_reason''] \<and>
   span_attribute
     (snd (instrumented_create no_str PNone
             (underlying (\<lambda>args kwargs. Inr two_choices_response)) PNone [] docstring_kwargs))
     ''openai.chat.response.choices.1.message.content'' = Some (PStr ''second'')"
proof -
  let ?cs = "[PDict [(''message'', PDict [(''role'', PStr ''assistant''),
                                           (''content'', PStr ''first'')]),
                      (''finish_reason'', PStr ''stop'')],
               PDict [(''message'', PDict [(''role'', PStr ''assistant''),
                                           (''content'', PStr ''second'')]),
                      (''finish_reason'', PStr ''length'')]]"
  let ?run = "instrumented_create no_str PNone
                (underlying (\<lambda>args kwargs. Inr two_choices_response)) PNone [] docstring_kwargs"
  have n: "\<not> truthy PNone" by simp
  have v: "request_valid docstring_kwargs"
    by (simp add: request_valid_def docstring_kwargs_def contains_def is_message_def)
  have c: "response_complete two_choices_response"
    by (simp add: response_complete_def two_choices_response_def contains_def is_choice_def
          is_usage_def)
  have r: "fst ?run = Inr two_choices_response"
    using n request_valid_runs [OF v, of no_str] response_complete_runs [OF c]
    by (simp add: instrumented_create_call underlying_def)
  have g: "getitem two_choices_response ''choices'' = Inr (PList ?cs)"
    by (simp add: two_choices_response_def dict_getitem_def)
  note t = choices_flattening [OF n r g]
  have k: "choice_key 0 s = ''openai.chat.response.choices.0'' @ s"
    "choice_key (Suc 0) s = ''openai.chat.response.choices.1'' @ s" for s
    by (simp_all add: choice_key_def name_def format_index_0 format_index_1)
  have first: "map fst (choice_attributes (snd ?run)) =
     [''openai.chat.response.choices.0.message.role'',
      ''openai.chat.response.choices.0.message.content'',
      ''openai.chat.response.choices.0.finish_reason'',
      ''openai.chat.response.choices.1.message.role'',
      ''openai.chat.response.choices.1.message.content'',
      ''openai.chat.response.choices.1.finish_reason'']"
    using t [THEN conjunct1] by (simp add: choice_keys_def k)
  have l: "Suc 0 < length ?cs" by simp
  note t [THEN conjunct2, rule_format, OF l]
  then have second: "span_attribute (snd ?run)
       ''openai.chat.response.choices.1.message.content'' = Some (PStr ''second'')"
    by (auto simp: k subscript2_def dict_getitem_def)
  from n r first second show ?thesis by simp
qed

section \<open>Instrumenting and uninstrumenting\<close>

text \<open>
  Claim C9. Uninstrumenting after instrumenting leaves the client method bound to what it
  was bound to before. A call of the original method after the round trip returns or
  raises what the original does, and its trace is the invocation alone: no span is opened,
  written to or closed, whatever the suppression value is.
\<close>

theorem uninstrument_restores:
  "uninstrument (instrument_chat create) = create \<and>
   call_method str_of suppress instance (uninstrument (instrument_chat (Original f)))
     args kwargs = (f args kwargs, [Call args kwargs])"
  by (simp add: uninstrument_def instrument_chat_def wrap_function_wrapper_def underlying_def)

theorem uninstrument_restores_witness:
  "call_method no_str PNone PNone
     (uninstrument (instrument_chat (Original (\<lambda>args kwargs. Inr sample_response))))
     [] docstring_kwargs = (Inr sample_response, [Call [] docstring_kwargs])"
  using uninstrument_restores [of "Original (\<lambda>args kwargs. Inr sample_response)" no_str PNone
      PNone "\<lambda>args kwargs. Inr sample_response" "[]" docstring_kwargs]
  by (simp add: underlying_def)

end
